theory Spec2Isabelle
  imports Main "HOL-Library.Word"
begin

section \<open>FixedLengthList: a list with a fixed pool of slots\<close>

text \<open>
  The C++ template \<open>FixedLengthList<T, queueMax>\<close> keeps an array \<open>m_items\<close> of
  \<open>queueMax\<close> slots. Every slot carries a forward pointer and a value. The pointers
  \<open>m_freeHead\<close>, \<open>m_usedHead\<close> and \<open>m_usedTail\<close> and every \<open>m_forward\<close> are either
  \<open>NULL\<close> or the address of a slot of \<open>m_items\<close>: they are modelled as \<open>nat option\<close>,
  \<open>None\<close> for \<open>NULL\<close> and \<open>Some i\<close> for \<open>&m_items[i]\<close>. The counter \<open>m_usedCount\<close>
  and the template parameter \<open>queueMax\<close> are of type \<open>size_t\<close>: words of an arbitrary
  but fixed width \<open>'w\<close>, whose arithmetic wraps around.
\<close>

subsection \<open>Data\<close>

record 'a FixedLengthListItem =
  m_forward :: "nat option"
  m_item :: 'a

record (overloaded) ('a, 'w) FixedLengthList =
  m_items :: "'a FixedLengthListItem list"
  m_freeHead :: "nat option"
  m_usedHead :: "nat option"
  m_usedTail :: "nat option"
  m_usedCount :: "'w::len word"

text \<open>Reading and writing through a slot pointer (\<open>p->m_forward\<close>, \<open>p->m_item\<close>).\<close>

definition forward_of :: "('a, 'w::len) FixedLengthList \<Rightarrow> nat \<Rightarrow> nat option" where
  "forward_of l p = m_forward (m_items l ! p)"

definition item_of :: "('a, 'w::len) FixedLengthList \<Rightarrow> nat \<Rightarrow> 'a" where
  "item_of l p = m_item (m_items l ! p)"

definition set_forward ::
  "nat \<Rightarrow> nat option \<Rightarrow> ('a, 'w::len) FixedLengthList \<Rightarrow> ('a, 'w) FixedLengthList" where
  "set_forward p q l = l\<lparr>m_items := (m_items l)[p := (m_items l ! p)\<lparr>m_forward := q\<rparr>]\<rparr>"

definition set_item ::
  "nat \<Rightarrow> 'a \<Rightarrow> ('a, 'w::len) FixedLengthList \<Rightarrow> ('a, 'w) FixedLengthList" where
  "set_item p v l = l\<lparr>m_items := (m_items l)[p := (m_items l ! p)\<lparr>m_item := v\<rparr>]\<rparr>"

subsection \<open>clear and the constructors\<close>

text \<open>
  The loop of \<open>clear\<close> counts \<open>i\<close> down from \<open>queueMax - 1\<close> to \<open>0\<close> while \<open>p\<close> walks up
  the array; the first argument of \<open>clear_loop\<close> is the number of rounds left.
\<close>

fun clear_loop ::
  "nat \<Rightarrow> nat \<Rightarrow> ('a, 'w::len) FixedLengthList \<Rightarrow> nat \<times> ('a, 'w) FixedLengthList" where
  "clear_loop 0 p l = (p, l)"
| "clear_loop (Suc i) p l =
     (let next = p + 1;
          l = set_forward p (Some next) l
      in clear_loop i next l)"

definition clear :: "'w::len word \<Rightarrow> ('a, 'w) FixedLengthList \<Rightarrow> ('a, 'w) FixedLengthList" where
  "clear queueMax l =
     (let l = l\<lparr>m_usedHead := None\<rparr>;
          l = l\<lparr>m_usedTail := None\<rparr>;
          l = l\<lparr>m_freeHead := Some 0\<rparr>;
          (p, l) = clear_loop (unat (queueMax - 1)) 0 l;
          l = set_forward p None l
      in l\<lparr>m_usedCount := 0\<rparr>)"

text \<open>
  A constructor runs on the storage of the new object, whose content is arbitrary: the
  argument \<open>this\<close>.
\<close>

definition FixedLengthList_void ::
  "'w::len word \<Rightarrow> ('a, 'w) FixedLengthList \<Rightarrow> ('a, 'w) FixedLengthList" where
  "FixedLengthList_void queueMax this = clear queueMax this"

function init_used_loop ::
  "nat \<Rightarrow> nat \<Rightarrow> 'a list \<Rightarrow> nat option \<Rightarrow> ('a, 'w::len) FixedLengthList
     \<Rightarrow> ('a, 'w) FixedLengthList" where
  "init_used_loop i init_count src prev l =
     (if i < init_count then
        let current = i;
            l = set_forward current None l;
            l = set_item current (src ! i) l;
            l = (case prev of
                   Some pr \<Rightarrow> set_forward pr (Some current) l
                 | None \<Rightarrow> l\<lparr>m_usedHead := Some current\<rparr>);
            l = l\<lparr>m_usedTail := Some current\<rparr>
        in init_used_loop (i + 1) init_count src (Some current) l
      else l)"
  by pat_completeness auto
termination
  by (relation "measure (\<lambda>(i, init_count, src, prev, l). init_count - i)") auto

function init_free_loop ::
  "nat \<Rightarrow> nat \<Rightarrow> nat option \<Rightarrow> ('a, 'w::len) FixedLengthList \<Rightarrow> ('a, 'w) FixedLengthList" where
  "init_free_loop i n prev l =
     (if i < n then
        let current = i;
            l = set_forward current None l;
            l = (case prev of
                   Some pr \<Rightarrow> set_forward pr (Some current) l
                 | None \<Rightarrow> l\<lparr>m_freeHead := Some current\<rparr>)
        in init_free_loop (i + 1) n (Some current) l
      else l)"
  by pat_completeness auto
termination
  by (relation "measure (\<lambda>(i, n, prev, l). n - i)") auto

definition FixedLengthList_init ::
  "'w::len word \<Rightarrow> 'a list \<Rightarrow> 'w word \<Rightarrow> ('a, 'w) FixedLengthList \<Rightarrow> ('a, 'w) FixedLengthList" where
  "FixedLengthList_init queueMax p_items p_count this =
     (let init_count = min queueMax p_count;
          l = this\<lparr>m_usedHead := None\<rparr>;
          l = l\<lparr>m_usedTail := None\<rparr>;
          l = init_used_loop 0 (unat init_count) p_items None l;
          l = l\<lparr>m_usedCount := init_count\<rparr>;
          l = l\<lparr>m_freeHead := None\<rparr>
      in init_free_loop (unat init_count) (unat queueMax) None l)"

subsection \<open>push, queue, pop\<close>

definition push :: "'a \<Rightarrow> ('a, 'w::len) FixedLengthList \<Rightarrow> bool \<times> ('a, 'w) FixedLengthList" where
  "push p_item l =
     (case m_freeHead l of
        None \<Rightarrow> (False, l)
      | Some new_item \<Rightarrow>
          let l = l\<lparr>m_freeHead := forward_of l new_item\<rparr>;
              l = set_forward new_item (m_usedHead l) l;
              l = set_item new_item p_item l;
              l = l\<lparr>m_usedHead := Some new_item\<rparr>;
              l = (if m_usedTail l = None then l\<lparr>m_usedTail := Some new_item\<rparr> else l);
              l = l\<lparr>m_usedCount := m_usedCount l + 1\<rparr>
          in (True, l))"

definition queue :: "'a \<Rightarrow> ('a, 'w::len) FixedLengthList \<Rightarrow> bool \<times> ('a, 'w) FixedLengthList" where
  "queue p_item l =
     (case m_freeHead l of
        None \<Rightarrow> (False, l)
      | Some new_item \<Rightarrow>
          let l = l\<lparr>m_freeHead := forward_of l new_item\<rparr>;
              l = set_forward new_item None l;
              l = set_item new_item p_item l;
              l = (case m_usedTail l of
                     Some old_tail \<Rightarrow> set_forward old_tail (Some new_item) l
                   | None \<Rightarrow> l);
              l = l\<lparr>m_usedTail := Some new_item\<rparr>;
              l = (if m_usedHead l = None then l\<lparr>m_usedHead := Some new_item\<rparr> else l);
              l = l\<lparr>m_usedCount := m_usedCount l + 1\<rparr>
          in (True, l))"

text \<open>
  \<open>pop\<close> and \<open>dequeue\<close> write through the pointer \<open>p_item\<close>: the argument \<open>out\<close> is the
  value stored there before the call, the last component of the result the value stored
  there after it.
\<close>

definition pop ::
  "('a, 'w::len) FixedLengthList \<Rightarrow> 'a \<Rightarrow> bool \<times> ('a, 'w) FixedLengthList \<times> 'a" where
  "pop l out =
     (case m_usedHead l of
        None \<Rightarrow> (False, l, out)
      | Some old_item \<Rightarrow>
          let out = item_of l old_item;
              l = l\<lparr>m_usedHead := forward_of l old_item\<rparr>;
              l = (if m_usedTail l = Some old_item then l\<lparr>m_usedTail := None\<rparr> else l);
              l = set_forward old_item (m_freeHead l) l;
              l = l\<lparr>m_freeHead := Some old_item\<rparr>;
              l = l\<lparr>m_usedCount := m_usedCount l - 1\<rparr>
          in (True, l, out))"

subsection \<open>remove\_node, dequeue, remove, inList\<close>

text \<open>
  The \<open>while\<close> loops follow forward pointers until they meet \<open>NULL\<close>; on a cyclic
  chain they would run forever. They are partial functions: \<open>None\<close> is a loop that does
  not return.
\<close>

partial_function (option) remove_node_loop ::
  "nat option \<Rightarrow> nat \<Rightarrow> ('a, 'w::len) FixedLengthList \<Rightarrow> ('a, 'w) FixedLengthList option" where
  "remove_node_loop p p_item l =
     (case p of
        None \<Rightarrow> Some l
      | Some i \<Rightarrow>
          if forward_of l i = Some p_item then
            (let l = set_forward i None l
             in Some (l\<lparr>m_usedTail := Some i\<rparr>))
          else remove_node_loop (forward_of l i) p_item l)"

declare remove_node_loop.simps [code]

definition remove_node ::
  "nat \<Rightarrow> ('a, 'w::len) FixedLengthList \<Rightarrow> ('a, 'w) FixedLengthList option" where
  "remove_node p_item l =
     (case (if m_usedHead l = Some p_item
            then Some (l\<lparr>m_usedHead := None, m_usedTail := None\<rparr>)
            else remove_node_loop (m_usedHead l) p_item l) of
        None \<Rightarrow> None
      | Some l \<Rightarrow>
          let l = set_forward p_item (m_freeHead l) l;
              l = l\<lparr>m_freeHead := Some p_item\<rparr>
          in Some (l\<lparr>m_usedCount := m_usedCount l - 1\<rparr>))"

definition dequeue ::
  "('a, 'w::len) FixedLengthList \<Rightarrow> 'a \<Rightarrow> (bool \<times> ('a, 'w) FixedLengthList \<times> 'a) option" where
  "dequeue l out =
     (case m_usedTail l of
        None \<Rightarrow> Some (False, l, out)
      | Some old_item \<Rightarrow>
          let out = item_of l old_item
          in (case remove_node old_item l of
                None \<Rightarrow> None
              | Some l \<Rightarrow> Some (True, l, out)))"

partial_function (option) remove_loop ::
  "'a \<Rightarrow> nat option \<Rightarrow> nat option \<Rightarrow> ('a, 'w::len) FixedLengthList
     \<Rightarrow> (bool \<times> ('a, 'w) FixedLengthList) option" where
  "remove_loop p_item last_item p l =
     (case p of
        None \<Rightarrow> Some (False, l)
      | Some i \<Rightarrow>
          if item_of l i = p_item then
            (let l = (case last_item of
                        None \<Rightarrow> l\<lparr>m_usedHead := forward_of l i\<rparr>
                      | Some la \<Rightarrow> set_forward la (forward_of l i) l);
                 l = (if m_usedTail l = Some i then l\<lparr>m_usedTail := last_item\<rparr> else l);
                 l = set_forward i (m_freeHead l) l;
                 l = l\<lparr>m_freeHead := Some i\<rparr>;
                 l = l\<lparr>m_usedCount := m_usedCount l - 1\<rparr>
             in Some (True, l))
          else remove_loop p_item (Some i) (forward_of l i) l)"

declare remove_loop.simps [code]

definition remove ::
  "'a \<Rightarrow> ('a, 'w::len) FixedLengthList \<Rightarrow> (bool \<times> ('a, 'w) FixedLengthList) option" where
  "remove p_item l = remove_loop p_item None (m_usedHead l) l"

partial_function (option) inList_loop ::
  "'a \<Rightarrow> nat option \<Rightarrow> ('a, 'w::len) FixedLengthList \<Rightarrow> bool option" where
  "inList_loop p_val p l =
     (case p of
        None \<Rightarrow> Some False
      | Some i \<Rightarrow> if item_of l i = p_val then Some True else inList_loop p_val (forward_of l i) l)"

declare inList_loop.simps [code]

definition inList :: "'a \<Rightarrow> ('a, 'w::len) FixedLengthList \<Rightarrow> bool option" where
  "inList p_val l = inList_loop p_val (m_usedHead l) l"

subsection \<open>used and available\<close>

definition used :: "('a, 'w::len) FixedLengthList \<Rightarrow> 'w word" where
  "used l = m_usedCount l"

definition available :: "'w::len word \<Rightarrow> ('a, 'w) FixedLengthList \<Rightarrow> 'w word" where
  "available queueMax l = queueMax - m_usedCount l"

subsection \<open>The iterator\<close>

text \<open>
  A \<open>FixedLengthListIter\<close> holds one slot pointer. \<open>operator*\<close> and both \<open>operator++\<close>
  read through it without a test: on the null pointer that is the error \<open>NullDeref\<close>.
\<close>

datatype FixedLengthListIter = FixedLengthListIter (iter_item: "nat option")

datatype error = NullDeref

definition FixedLengthListIter_void :: FixedLengthListIter where
  "FixedLengthListIter_void = FixedLengthListIter None"

definition list_begin :: "('a, 'w::len) FixedLengthList \<Rightarrow> FixedLengthListIter" where
  "list_begin l = FixedLengthListIter (m_usedHead l)"

definition list_end :: "('a, 'w::len) FixedLengthList \<Rightarrow> FixedLengthListIter" where
  "list_end l = FixedLengthListIter None"

definition op_deref :: "('a, 'w::len) FixedLengthList \<Rightarrow> FixedLengthListIter \<Rightarrow> error + 'a" where
  "op_deref l it =
     (case iter_item it of
        None \<Rightarrow> Inl NullDeref
      | Some i \<Rightarrow> Inr (item_of l i))"

text \<open>Post-increment returns the clone and the advanced iterator, in this order.\<close>

definition op_post_inc ::
  "('a, 'w::len) FixedLengthList \<Rightarrow> FixedLengthListIter
     \<Rightarrow> error + (FixedLengthListIter \<times> FixedLengthListIter)" where
  "op_post_inc l it =
     (let clone = it
      in case iter_item it of
           None \<Rightarrow> Inl NullDeref
         | Some i \<Rightarrow> Inr (clone, FixedLengthListIter (forward_of l i)))"

definition op_pre_inc ::
  "('a, 'w::len) FixedLengthList \<Rightarrow> FixedLengthListIter \<Rightarrow> error + FixedLengthListIter" where
  "op_pre_inc l it =
     (case iter_item it of
        None \<Rightarrow> Inl NullDeref
      | Some i \<Rightarrow> Inr (FixedLengthListIter (forward_of l i)))"

text \<open>The loop of \<open>operator+=\<close>; the first argument is the number of rounds left.\<close>

fun op_add_loop ::
  "nat \<Rightarrow> ('a, 'w::len) FixedLengthList \<Rightarrow> FixedLengthListIter \<Rightarrow> FixedLengthListIter" where
  "op_add_loop 0 l it = it"
| "op_add_loop (Suc n) l it =
     (case iter_item it of
        None \<Rightarrow> it
      | Some i \<Rightarrow> op_add_loop n l (FixedLengthListIter (forward_of l i)))"

definition op_add_assign ::
  "('a, 'w::len) FixedLengthList \<Rightarrow> FixedLengthListIter \<Rightarrow> 32 word \<Rightarrow> FixedLengthListIter" where
  "op_add_assign l it p_inc = op_add_loop (unat p_inc) l it"

definition op_eq :: "FixedLengthListIter \<Rightarrow> FixedLengthListIter \<Rightarrow> bool" where
  "op_eq it p_comp \<longleftrightarrow> iter_item it = iter_item p_comp"

definition op_ne :: "FixedLengthListIter \<Rightarrow> FixedLengthListIter \<Rightarrow> bool" where
  "op_ne it p_comp \<longleftrightarrow> iter_item it \<noteq> iter_item p_comp"

subsection \<open>The chains as lists of slots\<close>

text \<open>
  \<open>path its p xs q\<close>: starting at pointer \<open>p\<close> and following the forward pointers
  visits exactly the slots \<open>xs\<close>, all inside the array, and arrives at pointer \<open>q\<close>.
\<close>

primrec path ::
  "'a FixedLengthListItem list \<Rightarrow> nat option \<Rightarrow> nat list \<Rightarrow> nat option \<Rightarrow> bool" where
  "path its p [] q \<longleftrightarrow> p = q"
| "path its p (x # xs) q \<longleftrightarrow>
     p = Some x \<and> x < length its \<and> path its (m_forward (its ! x)) xs q"

text \<open>
  \<open>chain_from n its p\<close> walks from \<open>p\<close> to \<open>NULL\<close> and returns the slots met; it
  gives up (\<open>None\<close>) after \<open>n\<close> slots or at a pointer outside the array.
\<close>

fun chain_from ::
  "nat \<Rightarrow> 'a FixedLengthListItem list \<Rightarrow> nat option \<Rightarrow> nat list option" where
  "chain_from n its None = Some []"
| "chain_from 0 its (Some i) = None"
| "chain_from (Suc n) its (Some i) =
     (if i < length its
      then map_option ((#) i) (chain_from n its (m_forward (its ! i)))
      else None)"

definition used_slots :: "('a, 'w::len) FixedLengthList \<Rightarrow> nat list option" where
  "used_slots l = chain_from (length (m_items l)) (m_items l) (m_usedHead l)"

definition free_slots :: "('a, 'w::len) FixedLengthList \<Rightarrow> nat list option" where
  "free_slots l = chain_from (length (m_items l)) (m_items l) (m_freeHead l)"

text \<open>The values of the used list, from head to tail.\<close>

definition contents :: "('a, 'w::len) FixedLengthList \<Rightarrow> 'a list" where
  "contents l = (case used_slots l of None \<Rightarrow> [] | Some us \<Rightarrow> map (item_of l) us)"

text \<open>
  The invariant of the data model, for used list \<open>us\<close> and free stack \<open>fs\<close>: the array
  has \<open>queueMax\<close> slots, both chains end in \<open>NULL\<close>, every slot is in exactly one of
  them, \<open>m_usedTail\<close> is the last used slot (\<open>NULL\<close> when there is none) and
  \<open>m_usedCount\<close> counts the used slots.
\<close>

definition wf_list ::
  "'w::len word \<Rightarrow> ('a, 'w) FixedLengthList \<Rightarrow> nat list \<Rightarrow> nat list \<Rightarrow> bool" where
  "wf_list queueMax l us fs \<longleftrightarrow>
     length (m_items l) = unat queueMax \<and>
     path (m_items l) (m_usedHead l) us None \<and>
     path (m_items l) (m_freeHead l) fs None \<and>
     distinct (us @ fs) \<and>
     length us + length fs = unat queueMax \<and>
     m_usedTail l = (if us = [] then None else Some (last us)) \<and>
     m_usedCount l = of_nat (length us)"

definition list_inv :: "'w::len word \<Rightarrow> ('a, 'w) FixedLengthList \<Rightarrow> bool" where
  "list_inv queueMax l =
     (case used_slots l of
        None \<Rightarrow> False
      | Some us \<Rightarrow>
          (case free_slots l of
             None \<Rightarrow> False
           | Some fs \<Rightarrow> wf_list queueMax l us fs))"

text \<open>
  The state that the loop of \<open>remove\<close> leaves when it finds the value in slot \<open>i\<close>
  with \<open>last_item\<close> pointing to the slot before it: the body of the matching branch.
\<close>

definition remove_found ::
  "nat option \<Rightarrow> nat \<Rightarrow> ('a, 'w::len) FixedLengthList \<Rightarrow> ('a, 'w) FixedLengthList" where
  "remove_found last_item i l =
     (let l = (case last_item of
                 None \<Rightarrow> l\<lparr>m_usedHead := forward_of l i\<rparr>
               | Some la \<Rightarrow> set_forward la (forward_of l i) l);
          l = (if m_usedTail l = Some i then l\<lparr>m_usedTail := last_item\<rparr> else l);
          l = set_forward i (m_freeHead l) l;
          l = l\<lparr>m_freeHead := Some i\<rparr>
      in l\<lparr>m_usedCount := m_usedCount l - 1\<rparr>)"

text \<open>
  Storage of \<open>n\<close> slots filled with zeros, as that of a list object with static
  storage duration before its constructor runs (the lists of the test program).
\<close>

definition zeroed :: "nat \<Rightarrow> (int, 32) FixedLengthList" where
  "zeroed n =
     \<lparr>m_items = replicate n \<lparr>m_forward = None, m_item = 0\<rparr>,
      m_freeHead = None, m_usedHead = None, m_usedTail = None, m_usedCount = 0\<rparr>"

subsection \<open>Client code: sequences of calls and the iteration loop\<close>

text \<open>
  A client owns a list and one location that \<open>pop\<close> and \<open>dequeue\<close> write to, as
  the variable \<open>i\<close> of the test program does. A call that does not return makes the
  whole sequence \<open>None\<close>.
\<close>

datatype 'a call = Push 'a | Queue 'a | Pop | Dequeue | Remove 'a | Clear

fun apply_call ::
  "'w::len word \<Rightarrow> 'a call \<Rightarrow> ('a, 'w) FixedLengthList \<times> 'a
     \<Rightarrow> (('a, 'w) FixedLengthList \<times> 'a) option" where
  "apply_call queueMax (Push v) (l, out) = Some (snd (push v l), out)"
| "apply_call queueMax (Queue v) (l, out) = Some (snd (queue v l), out)"
| "apply_call queueMax Pop (l, out) = Some (snd (pop l out))"
| "apply_call queueMax Dequeue (l, out) = map_option snd (dequeue l out)"
| "apply_call queueMax (Remove v) (l, out) = map_option (\<lambda>r. (snd r, out)) (remove v l)"
| "apply_call queueMax Clear (l, out) = Some (clear queueMax l, out)"

fun run_calls ::
  "'w::len word \<Rightarrow> 'a call list \<Rightarrow> ('a, 'w) FixedLengthList \<times> 'a
     \<Rightarrow> (('a, 'w) FixedLengthList \<times> 'a) option" where
  "run_calls queueMax [] s = Some s"
| "run_calls queueMax (c # cs) s =
     (case apply_call queueMax c s of
        None \<Rightarrow> None
      | Some s' \<Rightarrow> run_calls queueMax cs s')"

text \<open>\<open>queue_all\<close> queues the values one after the other and collects the return values.\<close>

fun queue_all ::
  "'a list \<Rightarrow> ('a, 'w::len) FixedLengthList \<Rightarrow> bool list \<times> ('a, 'w) FixedLengthList" where
  "queue_all [] l = ([], l)"
| "queue_all (v # vs) l =
     (case queue v l of
        (r, l') \<Rightarrow> (case queue_all vs l' of (rs, l'') \<Rightarrow> (r # rs, l'')))"

text \<open>
  \<open>dequeue_n n\<close> calls \<open>dequeue\<close> \<open>n\<close> times on the same location and collects, for
  each call, the return value and the value the location holds after it.
\<close>

fun dequeue_n ::
  "nat \<Rightarrow> ('a, 'w::len) FixedLengthList \<Rightarrow> 'a
     \<Rightarrow> ((bool \<times> 'a) list \<times> ('a, 'w) FixedLengthList) option" where
  "dequeue_n 0 l out = Some ([], l)"
| "dequeue_n (Suc n) l out =
     (case dequeue l out of
        None \<Rightarrow> None
      | Some (r, l', out') \<Rightarrow>
          (case dequeue_n n l' out' of
             None \<Rightarrow> None
           | Some (rs, l'') \<Rightarrow> Some ((r, out') # rs, l'')))"

text \<open>
  The iteration loop \<open>for (it = begin(); !(it == end()); ++it) visit(*it)\<close>, with the
  values visited so far.
\<close>

partial_function (option) iterate ::
  "('a, 'w::len) FixedLengthList \<Rightarrow> FixedLengthListIter \<Rightarrow> 'a list
     \<Rightarrow> (error + 'a list) option" where
  "iterate l it visited =
     (if op_eq it (list_end l) then Some (Inr visited)
      else (case op_deref l it of
              Inl e \<Rightarrow> Some (Inl e)
            | Inr v \<Rightarrow>
                (case op_pre_inc l it of
                   Inl e \<Rightarrow> Some (Inl e)
                 | Inr it' \<Rightarrow> iterate l it' (visited @ [v]))))"

declare iterate.simps [code]

section \<open>The invariant and the operations on it\<close>

subsection \<open>Paths\<close>

lemma path_append:
  "path its p (xs @ ys) q \<longleftrightarrow> (\<exists>r. path its p xs r \<and> path its r ys q)"
  by (induction xs arbitrary: p) auto

lemma path_snoc:
  "path its p (xs @ [x]) q \<longleftrightarrow>
     path its p xs (Some x) \<and> x < length its \<and> m_forward (its ! x) = q"
  by (auto simp: path_append)

lemma path_cong:
  "length its' = length its \<Longrightarrow> \<forall>x\<in>set xs. m_forward (its' ! x) = m_forward (its ! x)
     \<Longrightarrow> path its' p xs q = path its p xs q"
  by (induction xs arbitrary: p) auto

lemma path_upd:
  "x \<notin> set xs \<Longrightarrow> path (its[x := e]) p xs q = path its p xs q"
proof (rule path_cong)
  show "length (its[x := e]) = length its" by simp
  assume "x \<notin> set xs"
  then have "\<And>y. y \<in> set xs \<Longrightarrow> its[x := e] ! y = its ! y"
    by (metis nth_list_update_neq)
  then show "\<forall>y\<in>set xs. m_forward (its[x := e] ! y) = m_forward (its ! y)" by simp
qed

lemma path_unique: "path its p xs None \<Longrightarrow> path its p ys None \<Longrightarrow> xs = ys"
proof (induction xs arbitrary: p ys)
  case Nil
  then show ?case by (cases ys) auto
next
  case (Cons x xs)
  then show ?case by (cases ys) auto
qed

lemma chain_from_path: "chain_from n its p = Some xs \<Longrightarrow> path its p xs None"
  by (induction n its p arbitrary: xs rule: chain_from.induct) (auto split: if_splits)

lemma path_chain_from:
  "path its p xs None \<Longrightarrow> length xs \<le> n \<Longrightarrow> chain_from n its p = Some xs"
proof (induction xs arbitrary: p n)
  case Nil
  then show ?case by simp
next
  case (Cons x xs)
  then obtain m where "n = Suc m" by (cases n) auto
  with Cons show ?case by auto
qed

subsection \<open>The invariant\<close>

text \<open>
  A chain that ends in \<open>NULL\<close> and has no more slots than the array is what
  \<open>chain_from\<close> computes: \<open>list_inv\<close> holds exactly when some used list and some
  free stack satisfy \<open>wf_list\<close>. Under the invariant every pointer that the operations
  read is \<open>NULL\<close> or a slot of the array.
\<close>

lemma wf_slots:
  assumes "wf_list N l us fs"
  shows "used_slots l = Some us" and "free_slots l = Some fs"
proof -
  from assms have len: "length (m_items l) = unat N"
    and pu: "path (m_items l) (m_usedHead l) us None"
    and pf: "path (m_items l) (m_freeHead l) fs None"
    and sz: "length us + length fs = unat N"
    by (auto simp: wf_list_def)
  from pu sz len show "used_slots l = Some us"
    unfolding used_slots_def by (intro path_chain_from) auto
  from pf sz len show "free_slots l = Some fs"
    unfolding free_slots_def by (intro path_chain_from) auto
qed

lemma list_inv_iff: "list_inv N l \<longleftrightarrow> (\<exists>us fs. wf_list N l us fs)"
  by (auto simp: list_inv_def wf_slots split: option.splits)

lemma wf_contents: "wf_list N l us fs \<Longrightarrow> contents l = map (item_of l) us"
  by (simp add: contents_def wf_slots)

lemma wf_used:
  fixes N :: "'b::len word"
  assumes w: "wf_list N l us fs"
  shows "unat (used l) = length us"
proof -
  from w have "length us \<le> unat N" by (simp add: wf_list_def)
  moreover have "unat N < 2 ^ LENGTH('b)" by simp
  ultimately have "length us < 2 ^ LENGTH('b)" by linarith
  with w show ?thesis by (simp add: wf_list_def used_def unat_of_nat)
qed


subsection \<open>Effect of the operations on a list that satisfies the invariant\<close>

lemmas heap_defs = forward_of_def item_of_def set_forward_def set_item_def

lemma of_nat_pred_word:
  "0 < n \<Longrightarrow> (of_nat n :: 'b::len word) - 1 = of_nat (n - 1)"
  by (cases n) auto

lemma push_full: "wf_list N l us [] \<Longrightarrow> push v l = (False, l)"
  by (simp add: wf_list_def push_def)

lemma push_ok:
  assumes "wf_list N l us (f # fs)"
  shows "\<exists>l'. push v l = (True, l') \<and> wf_list N l' (f # us) fs \<and>
           item_of l' f = v \<and> (\<forall>i. i \<noteq> f \<longrightarrow> item_of l' i = item_of l i)"
proof -
  from assms have f: "m_freeHead l = Some f" "f < length (m_items l)" "f \<notin> set us" "f \<notin> set fs"
    by (auto simp: wf_list_def)
  with assms show ?thesis
    by (auto simp: wf_list_def push_def heap_defs Let_def path_upd)
qed

lemma queue_full: "wf_list N l us [] \<Longrightarrow> queue v l = (False, l)"
  by (simp add: wf_list_def queue_def)

lemma queue_ok:
  assumes "wf_list N l us (f # fs)"
  shows "\<exists>l'. queue v l = (True, l') \<and> wf_list N l' (us @ [f]) fs \<and>
           item_of l' f = v \<and> (\<forall>i. i \<noteq> f \<longrightarrow> item_of l' i = item_of l i)"
proof (cases us rule: rev_cases)
  case Nil
  from assms have f: "m_freeHead l = Some f" "f < length (m_items l)" "f \<notin> set fs"
    by (auto simp: wf_list_def)
  with assms Nil show ?thesis
    by (auto simp: wf_list_def queue_def heap_defs Let_def path_upd)
next
  case (snoc us' t)
  from assms have f: "m_freeHead l = Some f" "f < length (m_items l)" "f \<notin> set us" "f \<notin> set fs"
    by (auto simp: wf_list_def)
  from assms snoc have t: "m_usedTail l = Some t" "t < length (m_items l)" "t \<notin> set us'"
    "t \<notin> set fs" "t \<noteq> f" "m_usedHead l \<noteq> None"
    by (auto simp: wf_list_def path_snoc) (cases us', auto)+
  with f assms snoc show ?thesis
    by (auto simp: wf_list_def queue_def heap_defs Let_def path_upd path_append
             nth_list_update)
qed

lemma pop_empty: "wf_list N l [] fs \<Longrightarrow> pop l out = (False, l, out)"
  by (simp add: wf_list_def pop_def)

lemma pop_ok:
  assumes "wf_list N l (u # us) fs"
  shows "\<exists>l'. pop l out = (True, l', item_of l u) \<and> wf_list N l' us (u # fs) \<and>
           (\<forall>i. item_of l' i = item_of l i)"
proof -
  from assms have u: "m_usedHead l = Some u" "u < length (m_items l)" "u \<notin> set us" "u \<notin> set fs"
    by (auto simp: wf_list_def)
  with assms show ?thesis
    by (auto simp: wf_list_def pop_def heap_defs Let_def path_upd of_nat_pred_word
             nth_list_update)
qed


text \<open>
  The loop of \<open>remove_node\<close> stops at the slot before \<open>t\<close>: no slot before that one
  points to \<open>t\<close>, since the slots of a chain are distinct.
\<close>

lemma remove_node_loop_found:
  "path (m_items l) p (xs @ [y]) (Some t) \<Longrightarrow> t \<notin> set (xs @ [y]) \<Longrightarrow>
     remove_node_loop p t l = Some ((set_forward y None l)\<lparr>m_usedTail := Some y\<rparr>)"
proof (induction xs arbitrary: p)
  case Nil
  then show ?case
    by (subst remove_node_loop.simps) (auto simp: forward_of_def)
next
  case (Cons x xs)
  then have "forward_of l x \<noteq> Some t"
    by (cases xs) (auto simp: forward_of_def)
  with Cons show ?case
    by (subst remove_node_loop.simps) (auto simp: forward_of_def)
qed

lemma dequeue_empty: "wf_list N l [] fs \<Longrightarrow> dequeue l out = Some (False, l, out)"
  by (simp add: wf_list_def dequeue_def)

lemma dequeue_ok:
  assumes "wf_list N l (us @ [t]) fs"
  shows "\<exists>l'. dequeue l out = Some (True, l', item_of l t) \<and> wf_list N l' us (t # fs) \<and>
           (\<forall>i. item_of l' i = item_of l i)"
proof (cases us rule: rev_cases)
  case Nil
  from assms Nil have t: "m_usedTail l = Some t" "m_usedHead l = Some t"
    "t < length (m_items l)" "t \<notin> set fs"
    by (auto simp: wf_list_def)
  with assms Nil show ?thesis
    by (auto simp: wf_list_def dequeue_def remove_node_def heap_defs Let_def path_upd
             nth_list_update)
next
  case (snoc us' y)
  from assms snoc have t: "m_usedTail l = Some t" "t < length (m_items l)" "t \<notin> set fs"
    "t \<notin> set (us' @ [y])" "m_usedHead l \<noteq> Some t" "y < length (m_items l)"
    "y \<notin> set us'" "y \<notin> set fs" "y \<noteq> t"
    "path (m_items l) (m_usedHead l) (us' @ [y]) (Some t)"
    by (auto simp: wf_list_def path_append) (cases us', auto)+
  from remove_node_loop_found[OF t(10) t(4)]
  have loop: "remove_node_loop (m_usedHead l) t l
                = Some ((set_forward y None l)\<lparr>m_usedTail := Some y\<rparr>)" .
  from t assms snoc show ?thesis
    by (auto simp: loop wf_list_def dequeue_def remove_node_def heap_defs Let_def path_upd
             path_append nth_list_update of_nat_pred_word)
qed


lemma remove_loop_found:
  "path (m_items l) p (xs @ [u]) q \<Longrightarrow> \<forall>x\<in>set xs. item_of l x \<noteq> v \<Longrightarrow> item_of l u = v \<Longrightarrow>
     remove_loop v la p l
       = Some (True, remove_found (if xs = [] then la else Some (last xs)) u l)"
proof (induction xs arbitrary: p la)
  case Nil
  then show ?case
    by (subst remove_loop.simps) (auto simp: remove_found_def Let_def)
next
  case (Cons x xs)
  from Cons.prems have "path (m_items l) (forward_of l x) (xs @ [u]) q"
    by (simp add: forward_of_def)
  from Cons.IH[OF this, of "Some x"] Cons.prems show ?case
    by (subst remove_loop.simps) auto
qed

lemma remove_loop_none:
  "path (m_items l) p xs None \<Longrightarrow> \<forall>x\<in>set xs. item_of l x \<noteq> v \<Longrightarrow>
     remove_loop v la p l = Some (False, l)"
proof (induction xs arbitrary: p la)
  case Nil
  then show ?case by (subst remove_loop.simps) auto
next
  case (Cons x xs)
  from Cons.prems have "path (m_items l) (forward_of l x) xs None"
    by (simp add: forward_of_def)
  from Cons.IH[OF this, of "Some x"] Cons.prems show ?case
    by (subst remove_loop.simps) auto
qed

lemma remove_none:
  "wf_list N l us fs \<Longrightarrow> \<forall>x\<in>set us. item_of l x \<noteq> v \<Longrightarrow> remove v l = Some (False, l)"
  using remove_loop_none[of l "m_usedHead l" us v None] by (simp add: remove_def wf_list_def)

lemma remove_ok:
  assumes w: "wf_list N l (xs @ u # ys) fs"
    and nf: "\<forall>x\<in>set xs. item_of l x \<noteq> v" and f: "item_of l u = v"
  shows "\<exists>l'. remove v l = Some (True, l') \<and> wf_list N l' (xs @ ys) (u # fs) \<and>
           (\<forall>i. item_of l' i = item_of l i)"
proof -
  from w have p: "path (m_items l) (m_usedHead l) (xs @ [u]) (m_forward (m_items l ! u))"
    by (auto simp: wf_list_def path_append)
  have r: "remove v l
             = Some (True, remove_found (if xs = [] then None else Some (last xs)) u l)"
    unfolding remove_def by (rule remove_loop_found[OF p nf f])
  from w have u: "u < length (m_items l)" "u \<notin> set xs" "u \<notin> set ys" "u \<notin> set fs"
    by (auto simp: wf_list_def path_append)
  show ?thesis
  proof (cases xs rule: rev_cases)
    case Nil
    with w u show ?thesis
      by (cases ys)
         (auto simp: r wf_list_def remove_found_def heap_defs Let_def path_upd
               nth_list_update of_nat_pred_word)
  next
    case (snoc xs' y)
    with w have y: "y < length (m_items l)" "y \<notin> set xs'" "y \<noteq> u" "y \<notin> set ys" "y \<notin> set fs"
      by (auto simp: wf_list_def path_append)
    from snoc w u y show ?thesis
      by (cases ys)
         (auto simp: r wf_list_def remove_found_def heap_defs Let_def path_upd
               path_append nth_list_update of_nat_pred_word)
  qed
qed

lemma inList_loop_path:
  "path (m_items l) p xs None \<Longrightarrow> inList_loop v p l = Some (v \<in> set (map (item_of l) xs))"
proof (induction xs arbitrary: p)
  case Nil
  then show ?case by (subst inList_loop.simps) auto
next
  case (Cons x xs)
  from Cons.prems have "path (m_items l) (forward_of l x) xs None"
    by (simp add: forward_of_def)
  from Cons.IH[OF this] Cons.prems show ?case
    by (subst inList_loop.simps) auto
qed

lemma inList_wf: "wf_list N l us fs \<Longrightarrow> inList v l = Some (v \<in> set (map (item_of l) us))"
  using inList_loop_path[of l "m_usedHead l" us v] by (simp add: inList_def wf_list_def)


subsection \<open>clear\<close>

lemma clear_loop_spec:
  "p + n < length (m_items l) \<Longrightarrow>
     \<exists>its'. clear_loop n p l = (p + n, l\<lparr>m_items := its'\<rparr>) \<and>
       length its' = length (m_items l) \<and>
       path its' (Some p) [p..<p + n] (Some (p + n)) \<and>
       (\<forall>j. j < p \<or> p + n \<le> j \<longrightarrow> its' ! j = m_items l ! j) \<and>
       (\<forall>j. m_item (its' ! j) = m_item (m_items l ! j))"
proof (induction n arbitrary: p l)
  case 0
  have "l\<lparr>m_items := m_items l\<rparr> = l" by simp
  then show ?case by (intro exI[of _ "m_items l"]) simp
next
  case (Suc n)
  let ?l1 = "set_forward p (Some (p + 1)) l"
  from Suc.prems have "(p + 1) + n < length (m_items ?l1)"
    by (simp add: set_forward_def)
  from Suc.IH[OF this] obtain its' where
    its': "clear_loop n (p + 1) ?l1 = (p + 1 + n, ?l1\<lparr>m_items := its'\<rparr>)"
      "length its' = length (m_items ?l1)"
      "path its' (Some (p + 1)) [p + 1..<p + 1 + n] (Some (p + 1 + n))"
      "\<forall>j. j < p + 1 \<or> p + 1 + n \<le> j \<longrightarrow> its' ! j = m_items ?l1 ! j"
      "\<forall>j. m_item (its' ! j) = m_item (m_items ?l1 ! j)"
    by blast
  have eq: "?l1\<lparr>m_items := its'\<rparr> = l\<lparr>m_items := its'\<rparr>"
    by (simp add: set_forward_def)
  from its'(4) Suc.prems have fp: "m_forward (its' ! p) = Some (p + 1)"
    by (simp add: set_forward_def)
  have upt: "[p..<p + Suc n] = p # [p + 1..<p + 1 + n]"
    by (simp add: upt_conv_Cons)
  show ?case
  proof (intro exI[of _ its'] conjI)
    show "clear_loop (Suc n) p l = (p + Suc n, l\<lparr>m_items := its'\<rparr>)"
      using its'(1) eq by (simp add: Let_def)
    show "length its' = length (m_items l)"
      using its'(2) by (simp add: set_forward_def)
    show "path its' (Some p) [p..<p + Suc n] (Some (p + Suc n))"
      using its'(2,3) fp Suc.prems unfolding upt by (simp add: set_forward_def)
    show "\<forall>j. j < p \<or> p + Suc n \<le> j \<longrightarrow> its' ! j = m_items l ! j"
      using its'(4) by (auto simp: set_forward_def)
    show "\<forall>j. m_item (its' ! j) = m_item (m_items l ! j)"
      using its'(5) Suc.prems by (auto simp: set_forward_def nth_list_update)
  qed
qed

lemma clear_wf:
  fixes N :: "'b::len word"
  assumes N: "0 < N" and len: "length (m_items l) = unat N"
  shows "wf_list N (clear N l) [] [0..<unat N]"
proof -
  from N have "N \<noteq> 0" by auto
  then have n1: "unat (N - 1) = unat N - 1"
    by (rule unat_minus_one)
  from N have pos: "0 < unat N"
    by (simp add: word_less_nat_alt)
  let ?l0 = "l\<lparr>m_usedHead := None, m_usedTail := None, m_freeHead := Some 0\<rparr>"
  from pos len have "0 + (unat N - 1) < length (m_items ?l0)" by simp
  from clear_loop_spec[OF this] obtain its' where
    its': "clear_loop (unat N - 1) 0 ?l0 = (unat N - 1, ?l0\<lparr>m_items := its'\<rparr>)"
      "length its' = length (m_items ?l0)"
      "path its' (Some 0) [0..<unat N - 1] (Some (unat N - 1))"
    by auto
  from pos have upt: "[0..<unat N] = [0..<unat N - 1] @ [unat N - 1]"
    by (metis Suc_pred' upt_Suc_append zero_le)
  have "path (its'[unat N - 1 := (its' ! (unat N - 1))\<lparr>m_forward := None\<rparr>]) (Some 0)
          ([0..<unat N - 1] @ [unat N - 1]) None"
    using its'(2,3) pos len by (simp add: path_snoc path_upd)
  with its'(1,2) len pos show ?thesis
    unfolding upt by (simp add: clear_def n1 wf_list_def set_forward_def)
qed

section \<open>Properties of the list\<close>

subsection \<open>Full and empty lists\<close>

lemma wf_full:
  fixes N :: "'b::len word"
  assumes w: "wf_list N l us fs" and u: "used l = N"
  shows "fs = []"
proof -
  from wf_used[OF w] u have "length us = unat N" by simp
  with w show ?thesis by (simp add: wf_list_def)
qed

lemma wf_empty:
  fixes N :: "'b::len word"
  assumes w: "wf_list N l us fs" and u: "used l = 0"
  shows "us = []"
  using wf_used[OF w] u by simp

text \<open>
  Claim C10. For every list, the iterator built by the void constructor is equal
  (\<open>operator==\<close>) to the list's \<open>end()\<close>, and it is unequal (\<open>operator!=\<close>) to
  \<open>begin()\<close> whenever the list holds an element: both the void iterator and \<open>end()\<close>
  carry the null pointer, and the head of a list that is not empty is not null.
\<close>

theorem default_iterator_is_end:
  "op_eq FixedLengthListIter_void (list_end l) \<and>
   (list_inv N l \<longrightarrow> used l \<noteq> 0 \<longrightarrow> op_ne FixedLengthListIter_void (list_begin l))"
proof -
  have "op_ne FixedLengthListIter_void (list_begin l)" if "list_inv N l" "used l \<noteq> 0"
  proof -
    from that(1) obtain us fs where w: "wf_list N l us fs"
      by (auto simp: list_inv_iff)
    with that(2) have "us \<noteq> []" by (auto simp: wf_list_def used_def)
    with w have "m_usedHead l \<noteq> None" by (cases us) (auto simp: wf_list_def)
    then show ?thesis by (auto simp: op_ne_def FixedLengthListIter_void_def list_begin_def)
  qed
  then show ?thesis
    by (simp add: op_eq_def FixedLengthListIter_void_def list_end_def)
qed

theorem default_iterator_is_end_witness:
  "list_inv 2 (snd (push 7 (FixedLengthList_void 2 (zeroed 2)))) \<and>
   used (snd (push 7 (FixedLengthList_void 2 (zeroed 2)))) \<noteq> 0 \<and>
   op_eq FixedLengthListIter_void (list_end (snd (push 7 (FixedLengthList_void 2 (zeroed 2))))) \<and>
   op_ne FixedLengthListIter_void (list_begin (snd (push 7 (FixedLengthList_void 2 (zeroed 2)))))"
proof -
  have h1: "list_inv 2 (snd (push 7 (FixedLengthList_void 2 (zeroed 2))))"
    by code_simp
  have h2: "used (snd (push 7 (FixedLengthList_void 2 (zeroed 2)))) \<noteq> 0"
    by code_simp
  from default_iterator_is_end[of "snd (push 7 (FixedLengthList_void 2 (zeroed 2)))" 2] h1 h2
  show ?thesis by blast
qed

text \<open>
  Claim C5. On a list that holds \<open>queueMax\<close> elements, \<open>push\<close> and \<open>queue\<close>
  return false and leave the whole state (chains and stored values) as it was, so that
  afterwards \<open>used()\<close> is \<open>queueMax\<close> and \<open>available()\<close> is \<open>0\<close>.
\<close>

theorem full_list_rejects_push_and_queue:
  fixes N :: "'b::len word"
  assumes "list_inv N l" and "used l = N"
  shows "push v l = (False, l) \<and> queue v l = (False, l) \<and>
         used (snd (push v l)) = N \<and> available N (snd (push v l)) = 0 \<and>
         used (snd (queue v l)) = N \<and> available N (snd (queue v l)) = 0"
proof -
  from assms(1) obtain us fs where w: "wf_list N l us fs"
    by (auto simp: list_inv_iff)
  from wf_full[OF w assms(2)] w have "wf_list N l us []" by simp
  then have "push v l = (False, l)" "queue v l = (False, l)"
    by (rule push_full, rule queue_full)
  with assms(2) show ?thesis by (simp add: available_def used_def)
qed

theorem full_list_rejects_push_and_queue_witness:
  "list_inv 2 (snd (queue 2 (snd (push 1 (FixedLengthList_void 2 (zeroed 2)))))) \<and>
   used (snd (queue 2 (snd (push 1 (FixedLengthList_void 2 (zeroed 2)))))) = 2 \<and>
   push 3 (snd (queue 2 (snd (push 1 (FixedLengthList_void 2 (zeroed 2))))))
     = (False, snd (queue 2 (snd (push 1 (FixedLengthList_void 2 (zeroed 2)))))) \<and>
   queue 3 (snd (queue 2 (snd (push 1 (FixedLengthList_void 2 (zeroed 2))))))
     = (False, snd (queue 2 (snd (push 1 (FixedLengthList_void 2 (zeroed 2))))))"
proof -
  have h1: "list_inv 2 (snd (queue 2 (snd (push 1 (FixedLengthList_void 2 (zeroed 2))))))"
    by code_simp
  have h2: "used (snd (queue 2 (snd (push 1 (FixedLengthList_void 2 (zeroed 2)))))) = 2"
    by code_simp
  from full_list_rejects_push_and_queue[OF h1 h2, of 3] h1 h2
  show ?thesis by blast
qed

text \<open>
  Claim C6. On an empty list (\<open>used() == 0\<close>), for every value \<open>out\<close> of the output
  location, \<open>pop\<close> and \<open>dequeue\<close> return false, leave the list as it was and leave
  \<open>out\<close> in the output location.
\<close>

theorem empty_list_rejects_pop_and_dequeue:
  fixes N :: "'b::len word"
  assumes "list_inv N l" and "used l = 0"
  shows "pop l out = (False, l, out) \<and> dequeue l out = Some (False, l, out)"
proof -
  from assms(1) obtain us fs where w: "wf_list N l us fs"
    by (auto simp: list_inv_iff)
  from wf_empty[OF w assms(2)] w have "wf_list N l [] fs" by simp
  then show ?thesis by (simp add: pop_empty dequeue_empty)
qed

theorem empty_list_rejects_pop_and_dequeue_witness:
  "list_inv 20 (FixedLengthList_void 20 (zeroed 20)) \<and>
   used (FixedLengthList_void 20 (zeroed 20)) = 0 \<and>
   pop (FixedLengthList_void 20 (zeroed 20)) 5 = (False, FixedLengthList_void 20 (zeroed 20), 5) \<and>
   dequeue (FixedLengthList_void 20 (zeroed 20)) 5
     = Some (False, FixedLengthList_void 20 (zeroed 20), 5)"
proof -
  have h1: "list_inv 20 (FixedLengthList_void 20 (zeroed 20))"
    by code_simp
  have h2: "used (FixedLengthList_void 20 (zeroed 20)) = 0"
    by code_simp
  from empty_list_rejects_pop_and_dequeue[OF h1 h2, of 5] h1 h2
  show ?thesis by blast
qed

subsection \<open>Push and pop\<close>

lemma wf_available:
  fixes N :: "'b::len word"
  assumes w: "wf_list N l us fs" and a: "available N l \<noteq> 0"
  shows "fs \<noteq> []"
proof
  assume "fs = []"
  with w have "length us = unat N" and "m_usedCount l = of_nat (length us)"
    by (auto simp: wf_list_def)
  then have "m_usedCount l = N" by simp
  with a show False by (simp add: available_def)
qed

lemma wf_list_inv: "wf_list N l us fs \<Longrightarrow> list_inv N l"
  by (auto simp: list_inv_iff)

text \<open>
  Claim C4. On a list with at least one free slot, \<open>push(v)\<close> succeeds and puts
  \<open>v\<close> in front of the used list; the \<open>pop\<close> that follows it succeeds, stores
  \<open>v\<close> in the output location and leaves the used list as it was before the push:
  \<open>pop\<close> returns the value pushed last. The instance that follows the theorem is
  the example of the spec: with capacity 20, after \<open>push(111)\<close> and \<open>push(222)\<close>, \<open>pop\<close> yields 222, then 111,
  and the list is empty.
\<close>

theorem push_then_pop:
  fixes N :: "'b::len word"
  assumes "list_inv N l" and "available N l \<noteq> 0"
  shows "\<exists>l1 l2. push v l = (True, l1) \<and> contents l1 = v # contents l \<and>
           pop l1 out = (True, l2, v) \<and> contents l2 = contents l \<and>
           list_inv N l2 \<and> used l2 = used l"
proof -
  from assms(1) obtain us fs where w: "wf_list N l us fs"
    by (auto simp: list_inv_iff)
  from wf_available[OF w assms(2)] obtain f fs' where fs: "fs = f # fs'"
    by (cases fs) auto
  from w fs have fu: "f \<notin> set us" by (auto simp: wf_list_def)
  from push_ok[of N l us f fs' v] w fs obtain l1 where
    l1: "push v l = (True, l1)" "wf_list N l1 (f # us) fs'" "item_of l1 f = v"
      "\<forall>i. i \<noteq> f \<longrightarrow> item_of l1 i = item_of l i"
    by blast
  from pop_ok[OF l1(2), of out] l1(3) obtain l2 where
    l2: "pop l1 out = (True, l2, v)" "wf_list N l2 us (f # fs')"
      "\<forall>i. item_of l2 i = item_of l1 i"
    by auto
  from l1(4) fu have m1: "map (item_of l1) us = map (item_of l) us" by auto
  from l2(3) have m2: "map (item_of l2) us = map (item_of l1) us" by auto
  have c1: "contents l1 = v # contents l"
    using l1(2,3) w m1 by (simp add: wf_contents)
  have c2: "contents l2 = contents l"
    using l2(2) w m1 m2 by (simp add: wf_contents)
  have u: "used l2 = used l"
    using l2(2) w by (simp add: wf_list_def used_def)
  from l1(1) c1 l2(1) c2 wf_list_inv[OF l2(2)] u show ?thesis by blast
qed

theorem push_then_pop_witness:
  "list_inv 20 (snd (push 111 (FixedLengthList_void 20 (zeroed 20)))) \<and>
   available 20 (snd (push 111 (FixedLengthList_void 20 (zeroed 20)))) \<noteq> 0 \<and>
   (\<exists>l1 l2. push 222 (snd (push 111 (FixedLengthList_void 20 (zeroed 20)))) = (True, l1) \<and>
      contents l1 = 222 # contents (snd (push 111 (FixedLengthList_void 20 (zeroed 20)))) \<and>
      pop l1 0 = (True, l2, 222) \<and>
      contents l2 = contents (snd (push 111 (FixedLengthList_void 20 (zeroed 20)))) \<and>
      list_inv 20 l2 \<and>
      used l2 = used (snd (push 111 (FixedLengthList_void 20 (zeroed 20))))) \<and>
   (let l0 = FixedLengthList_void 20 (zeroed 20);
        (r1, l1) = push 111 l0;
        (r2, l2) = push 222 l1;
        (r3, l3, o3) = pop l2 0;
        (r4, l4, o4) = pop l3 o3
    in r1 \<and> r2 \<and> r3 \<and> o3 = 222 \<and> r4 \<and> o4 = 111 \<and> used l4 = 0)"
proof -
  have h1: "list_inv 20 (snd (push 111 (FixedLengthList_void 20 (zeroed 20))))"
    by code_simp
  have h2: "available 20 (snd (push 111 (FixedLengthList_void 20 (zeroed 20)))) \<noteq> 0"
    by code_simp
  have e: "let l0 = FixedLengthList_void 20 (zeroed 20);
               (r1, l1) = push 111 l0;
               (r2, l2) = push 222 l1;
               (r3, l3, o3) = pop l2 0;
               (r4, l4, o4) = pop l3 o3
           in r1 \<and> r2 \<and> r3 \<and> o3 = 222 \<and> r4 \<and> o4 = 111 \<and> used l4 = 0"
    by code_simp
  from push_then_pop[OF h1 h2, of 222 0] h1 h2 e
  show ?thesis by blast
qed

subsection \<open>Queueing and dequeueing in sequence\<close>

lemma queue_all_wf:
  "wf_list N l us fs \<Longrightarrow> length vs \<le> length fs \<Longrightarrow>
     \<exists>l1. queue_all vs l = (replicate (length vs) True, l1) \<and>
       wf_list N l1 (us @ take (length vs) fs) (drop (length vs) fs) \<and>
       map (item_of l1) (us @ take (length vs) fs) = map (item_of l) us @ vs"
proof (induction vs arbitrary: l us fs)
  case Nil
  then show ?case by simp
next
  case (Cons v vs)
  then obtain f fs' where fs: "fs = f # fs'" by (cases fs) auto
  from Cons.prems(1) fs have fu: "f \<notin> set us" by (auto simp: wf_list_def)
  from queue_ok[of N l us f fs' v] Cons.prems(1) fs obtain l' where
    l': "queue v l = (True, l')" "wf_list N l' (us @ [f]) fs'" "item_of l' f = v"
      "\<forall>i. i \<noteq> f \<longrightarrow> item_of l' i = item_of l i"
    by blast
  from Cons.prems(2) fs have "length vs \<le> length fs'" by simp
  from Cons.IH[OF l'(2) this] obtain l1 where
    l1: "queue_all vs l' = (replicate (length vs) True, l1)"
      "wf_list N l1 ((us @ [f]) @ take (length vs) fs') (drop (length vs) fs')"
      "map (item_of l1) ((us @ [f]) @ take (length vs) fs') = map (item_of l') (us @ [f]) @ vs"
    by blast
  from l'(4) fu have "map (item_of l') us = map (item_of l) us" by auto
  with l' l1 fs show ?case by simp
qed

lemma dequeue_n_wf:
  "wf_list N l (us @ ds) fs \<Longrightarrow>
     \<exists>l2. dequeue_n (length ds) l out
            = Some (map (Pair True) (rev (map (item_of l) ds)), l2) \<and>
       wf_list N l2 us (ds @ fs) \<and> (\<forall>i. item_of l2 i = item_of l i)"
proof (induction ds arbitrary: l fs out rule: rev_induct)
  case Nil
  then show ?case by simp
next
  case (snoc t ds)
  from snoc.prems have "wf_list N l ((us @ ds) @ [t]) fs" by simp
  from dequeue_ok[OF this, of out] obtain l' where
    l': "dequeue l out = Some (True, l', item_of l t)" "wf_list N l' (us @ ds) (t # fs)"
      "\<forall>i. item_of l' i = item_of l i"
    by blast
  from snoc.IH[OF l'(2), of "item_of l t"] obtain l2 where
    l2: "dequeue_n (length ds) l' (item_of l t)
           = Some (map (Pair True) (rev (map (item_of l') ds)), l2)"
      "wf_list N l2 us (ds @ t # fs)" "\<forall>i. item_of l2 i = item_of l' i"
    by blast
  from l'(3) have "map (item_of l') ds = map (item_of l) ds" by auto
  with l' l2 show ?case by simp
qed

text \<open>
  Claim C1, amended. \<open>queue\<close> adds at the tail and \<open>dequeue\<close> removes at the tail:
  after \<open>queue(v1)\<close>, ..., \<open>queue(vk)\<close> on an empty list, with \<open>k\<close> at most
  \<open>queueMax\<close>, all of which succeed, the next \<open>k\<close> calls of \<open>dequeue\<close> succeed and
  return the values in the reverse order \<open>vk\<close>, ..., \<open>v1\<close>, and leave the list empty.
  The claim as stated asks for the order \<open>v1\<close>, ..., \<open>vk\<close>; after \<open>queue(22)\<close>,
  \<open>queue(33)\<close>, \<open>queue(44)\<close> the three calls yield 44, 33, 22.
\<close>

theorem queue_then_dequeue_reversed:
  fixes N :: "'b::len word"
  assumes "list_inv N l" and "used l = 0" and "length vs \<le> unat N"
  shows "\<exists>l1 l2. queue_all vs l = (replicate (length vs) True, l1) \<and>
           dequeue_n (length vs) l1 out = Some (map (Pair True) (rev vs), l2) \<and>
           used l2 = 0"
proof -
  from assms(1) obtain us fs where w0: "wf_list N l us fs"
    by (auto simp: list_inv_iff)
  from wf_empty[OF w0 assms(2)] w0 have w: "wf_list N l [] fs" by simp
  then have "length fs = unat N" by (simp add: wf_list_def)
  with assms(3) have "length vs \<le> length fs" by simp
  from queue_all_wf[OF w this] obtain l1 where
    l1: "queue_all vs l = (replicate (length vs) True, l1)"
      "wf_list N l1 ([] @ take (length vs) fs) (drop (length vs) fs)"
      "map (item_of l1) (take (length vs) fs) = vs"
    by auto
  from \<open>length vs \<le> length fs\<close> have len: "length (take (length vs) fs) = length vs"
    by simp
  from dequeue_n_wf[OF l1(2), of out] len l1(3) obtain l2 where
    l2: "dequeue_n (length vs) l1 out = Some (map (Pair True) (rev vs), l2)"
      "wf_list N l2 [] (take (length vs) fs @ drop (length vs) fs)"
    by auto
  from l2(2) have "used l2 = 0" by (simp add: wf_list_def used_def)
  with l1(1) l2(1) show ?thesis by blast
qed

theorem queue_then_dequeue_fifo_counterexample:
  "map_option fst
     (dequeue_n 3 (snd (queue_all [22, 33, 44] (FixedLengthList_void 20 (zeroed 20)))) 0)
   = Some [(True, 44), (True, 33), (True, 22)] \<and>
   map_option fst
     (dequeue_n 3 (snd (queue_all [22, 33, 44] (FixedLengthList_void 20 (zeroed 20)))) 0)
   \<noteq> Some [(True, 22), (True, 33), (True, 44)]"
  by code_simp

theorem queue_then_dequeue_reversed_witness:
  "list_inv 20 (FixedLengthList_void 20 (zeroed 20)) \<and>
   used (FixedLengthList_void 20 (zeroed 20)) = 0 \<and>
   length [22, 33, 44 :: int] \<le> unat (20 :: 32 word) \<and>
   (\<exists>l1 l2. queue_all [22, 33, 44] (FixedLengthList_void 20 (zeroed 20))
              = (replicate (length [22, 33, 44 :: int]) True, l1) \<and>
      dequeue_n (length [22, 33, 44 :: int]) l1 0
        = Some (map (Pair True) (rev [22, 33, 44]), l2) \<and>
      used l2 = 0)"
proof -
  have h1: "list_inv 20 (FixedLengthList_void 20 (zeroed 20))"
    by code_simp
  have h2: "used (FixedLengthList_void 20 (zeroed 20)) = 0"
    by code_simp
  have h3: "length [22, 33, 44 :: int] \<le> unat (20 :: 32 word)"
    by simp
  from queue_then_dequeue_reversed[OF h1 h2 h3, of 0] h1 h2 h3
  show ?thesis by blast
qed

subsection \<open>Removing a value\<close>

lemma wf_contents_length:
  fixes N :: "'b::len word"
  shows "wf_list N l us fs \<Longrightarrow> length (contents l) = unat (used l)"
  by (simp add: wf_contents wf_used)

text \<open>
  Claim C8. \<open>remove(v)\<close> returns. It returns true exactly when some used slot holds
  \<open>v\<close>; it then takes the first such slot, counted from the head, out of the used list
  and puts it on top of the free stack, so that the values of the used list lose the first
  occurrence of \<open>v\<close> and nothing else, \<open>used()\<close> goes down by one, and \<open>inList(v)\<close>
  is still true afterwards exactly when another occurrence is left. When no used slot
  holds \<open>v\<close> it returns false and the state is the one before the call.
\<close>

theorem remove_first_match:
  fixes N :: "'b::len word"
  assumes "list_inv N l"
  shows "\<exists>r l'. remove v l = Some (r, l') \<and> (r \<longleftrightarrow> v \<in> set (contents l)) \<and>
           (if r
            then (\<exists>xs u ys. used_slots l = Some (xs @ u # ys) \<and>
                    v \<notin> set (map (item_of l) xs) \<and> item_of l u = v \<and>
                    used_slots l' = Some (xs @ ys) \<and>
                    free_slots l' = map_option ((#) u) (free_slots l)) \<and>
                 contents l' = remove1 v (contents l) \<and>
                 unat (used l') + 1 = unat (used l) \<and>
                 list_inv N l' \<and>
                 inList v l' = Some (v \<in> set (remove1 v (contents l)))
            else l' = l)"
proof -
  from assms obtain us fs where w: "wf_list N l us fs"
    by (auto simp: list_inv_iff)
  show ?thesis
  proof (cases "v \<in> set (contents l)")
    case False
    with w have "\<forall>x\<in>set us. item_of l x \<noteq> v" by (auto simp: wf_contents)
    from remove_none[OF w this] False show ?thesis
      by (intro exI[of _ False] exI[of _ l]) simp
  next
    case True
    with w have "\<exists>x\<in>set us. item_of l x = v" by (auto simp: wf_contents)
    from split_list_first_prop[OF this] obtain xs u ys where
      us: "us = xs @ u # ys" and u: "item_of l u = v" and xs: "\<forall>x\<in>set xs. item_of l x \<noteq> v"
      by blast
    from w us have w': "wf_list N l (xs @ u # ys) fs" by simp
    from remove_ok[OF w' xs u] obtain l' where
      l': "remove v l = Some (True, l')" "wf_list N l' (xs @ ys) (u # fs)"
        "\<forall>i. item_of l' i = item_of l i"
      by blast
    from l'(3) have same: "\<And>zs. map (item_of l') zs = map (item_of l) zs" by auto
    from xs have nin: "v \<notin> set (map (item_of l) xs)" by auto
    have c: "contents l' = remove1 v (contents l)"
      using nin u by (simp add: wf_contents[OF l'(2)] wf_contents[OF w'] same remove1_append)
    have slots: "used_slots l = Some (xs @ u # ys)" "used_slots l' = Some (xs @ ys)"
      "free_slots l' = map_option ((#) u) (free_slots l)"
      by (simp_all add: wf_slots[OF w'] wf_slots[OF l'(2)])
    have cnt: "unat (used l') + 1 = unat (used l)"
      by (simp add: wf_used[OF w'] wf_used[OF l'(2)])
    have "inList v l' = Some (v \<in> set (contents l'))"
      using inList_wf[OF l'(2), of v] by (simp only: wf_contents[OF l'(2)])
    then have il: "inList v l' = Some (v \<in> set (remove1 v (contents l)))"
      by (simp only: c)
    from l'(1) True slots nin u c cnt wf_list_inv[OF l'(2)] il show ?thesis
      by (intro exI[of _ True] exI[of _ l']) (simp, blast)
  qed
qed

theorem remove_first_match_witness:
  "list_inv 3 (snd (queue_all [5, 7, 5] (FixedLengthList_void 3 (zeroed 3)))) \<and>
   map_option fst (remove 5 (snd (queue_all [5, 7, 5] (FixedLengthList_void 3 (zeroed 3)))))
     = Some True \<and>
   map_option (contents \<circ> snd)
     (remove 5 (snd (queue_all [5, 7, 5] (FixedLengthList_void 3 (zeroed 3))))) = Some [7, 5] \<and>
   map_option (inList 5 \<circ> snd)
     (remove 5 (snd (queue_all [5, 7, 5] (FixedLengthList_void 3 (zeroed 3)))))
     = Some (Some True) \<and>
   (\<exists>r l'. remove 5 (snd (queue_all [5, 7, 5] (FixedLengthList_void 3 (zeroed 3))))
             = Some (r, l') \<and>
      (r \<longleftrightarrow> 5 \<in> set (contents (snd (queue_all [5, 7, 5] (FixedLengthList_void 3 (zeroed 3)))))))"
proof -
  have h1: "list_inv 3 (snd (queue_all [5, 7, 5] (FixedLengthList_void 3 (zeroed 3))))"
    by code_simp
  have e1: "map_option fst
              (remove 5 (snd (queue_all [5, 7, 5] (FixedLengthList_void 3 (zeroed 3)))))
            = Some True"
    by code_simp
  have e2: "map_option (contents \<circ> snd)
              (remove 5 (snd (queue_all [5, 7, 5] (FixedLengthList_void 3 (zeroed 3)))))
            = Some [7, 5]"
    by code_simp
  have e3: "map_option (inList 5 \<circ> snd)
              (remove 5 (snd (queue_all [5, 7, 5] (FixedLengthList_void 3 (zeroed 3)))))
            = Some (Some True)"
    by code_simp
  from remove_first_match[OF h1, of 5] h1 e1 e2 e3
  show ?thesis by blast
qed

subsection \<open>Iteration\<close>

lemma iterate_path:
  "path (m_items l) p xs None \<Longrightarrow>
     iterate l (FixedLengthListIter p) visited = Some (Inr (visited @ map (item_of l) xs))"
proof (induction xs arbitrary: p visited)
  case Nil
  then show ?case
    by (subst iterate.simps) (simp add: op_eq_def list_end_def)
next
  case (Cons x xs)
  from Cons.prems have "path (m_items l) (forward_of l x) xs None"
    by (simp add: forward_of_def)
  from Cons.IH[OF this, of "visited @ [item_of l x]"] Cons.prems show ?case
    by (subst iterate.simps) (simp add: op_eq_def list_end_def op_deref_def op_pre_inc_def)
qed

text \<open>
  Claim C9. The loop that starts at \<open>begin()\<close> and advances until the iterator equals
  \<open>end()\<close> returns, without a null dereference, after it has read exactly the values of
  the used list from head to tail; these are \<open>used()\<close> many, and \<open>begin() == end()\<close>
  holds exactly when \<open>used()\<close> is \<open>0\<close>.
\<close>

theorem iteration_visits_used_list:
  fixes N :: "'b::len word"
  assumes "list_inv N l"
  shows "iterate l (list_begin l) [] = Some (Inr (contents l)) \<and>
         length (contents l) = unat (used l) \<and>
         (op_eq (list_begin l) (list_end l) \<longleftrightarrow> used l = 0)"
proof -
  from assms obtain us fs where w: "wf_list N l us fs"
    by (auto simp: list_inv_iff)
  then have p: "path (m_items l) (m_usedHead l) us None" by (simp add: wf_list_def)
  have a: "iterate l (list_begin l) [] = Some (Inr (contents l))"
    using iterate_path[OF p, of "[]"] by (simp add: list_begin_def wf_contents[OF w])
  have b: "length (contents l) = unat (used l)"
    by (rule wf_contents_length[OF w])
  have "m_usedHead l = None \<longleftrightarrow> us = []"
    using p by (cases us) auto
  moreover have "us = [] \<longleftrightarrow> used l = 0"
    using wf_used[OF w] by (auto simp: unat_eq_0)
  ultimately have c: "op_eq (list_begin l) (list_end l) \<longleftrightarrow> used l = 0"
    by (simp add: op_eq_def list_begin_def list_end_def)
  from a b c show ?thesis by simp
qed

theorem iteration_visits_used_list_witness:
  "list_inv 20 (snd (queue_all [111, 222] (FixedLengthList_void 20 (zeroed 20)))) \<and>
   iterate (snd (queue_all [111, 222] (FixedLengthList_void 20 (zeroed 20))))
     (list_begin (snd (queue_all [111, 222] (FixedLengthList_void 20 (zeroed 20))))) []
     = Some (Inr [111, 222]) \<and>
   iterate (snd (queue_all [111, 222] (FixedLengthList_void 20 (zeroed 20))))
     (list_begin (snd (queue_all [111, 222] (FixedLengthList_void 20 (zeroed 20))))) []
     = Some (Inr (contents (snd (queue_all [111, 222] (FixedLengthList_void 20 (zeroed 20)))))) \<and>
   length (contents (snd (queue_all [111, 222] (FixedLengthList_void 20 (zeroed 20)))))
     = unat (used (snd (queue_all [111, 222] (FixedLengthList_void 20 (zeroed 20)))))"
proof -
  have h1: "list_inv 20 (snd (queue_all [111, 222] (FixedLengthList_void 20 (zeroed 20))))"
    by code_simp
  have e: "contents (snd (queue_all [111, 222] (FixedLengthList_void 20 (zeroed 20))))
             = [111, 222]"
    by code_simp
  from iteration_visits_used_list[OF h1] h1 e
  show ?thesis by simp
qed

subsection \<open>Advancing an iterator\<close>

text \<open>
  On an iterator that points to a slot of a chain, both \<open>operator++\<close> move to the next
  slot of the chain, or to \<open>end()\<close> after the last one; \<open>operator+=\<close> moves \<open>n\<close>
  slots along the chain and stops at \<open>end()\<close> when the chain is shorter.
\<close>

lemma op_pre_inc_path:
  "path (m_items l) (iter_item it) (x # xs) None \<Longrightarrow>
     op_pre_inc l it = Inr (FixedLengthListIter (case xs of [] \<Rightarrow> None | y # _ \<Rightarrow> Some y))"
  by (cases xs) (auto simp: op_pre_inc_def forward_of_def)

lemma op_post_inc_path:
  "path (m_items l) (iter_item it) (x # xs) None \<Longrightarrow>
     op_post_inc l it
       = Inr (it, FixedLengthListIter (case xs of [] \<Rightarrow> None | y # _ \<Rightarrow> Some y))"
  by (cases xs) (auto simp: op_post_inc_def forward_of_def)

lemma op_add_loop_path:
  "path (m_items l) (iter_item it) xs None \<Longrightarrow>
     op_add_loop n l it = FixedLengthListIter (if n < length xs then Some (xs ! n) else None)"
proof (induction n arbitrary: it xs)
  case 0
  then show ?case by (cases xs; cases it) auto
next
  case (Suc n)
  show ?case
  proof (cases xs)
    case Nil
    with Suc.prems show ?thesis by (cases it) auto
  next
    case (Cons x ys)
    with Suc.prems have "path (m_items l) (iter_item (FixedLengthListIter (forward_of l x))) ys None"
      by (simp add: forward_of_def)
    from Suc.IH[OF this] Suc.prems Cons show ?thesis by simp
  qed
qed

text \<open>
  Claim C2. The claim asks that advancing an iterator that is at \<open>end()\<close> does nothing,
  for both \<open>operator++\<close> and for \<open>operator+=\<close>. \<open>operator+=\<close> tests the pointer
  before each step and stays at \<open>end()\<close>. Both \<open>operator++\<close> read
  \<open>m_item->m_forward\<close> without a test: on an iterator at \<open>end()\<close> they dereference
  the null pointer.
\<close>

theorem increment_at_end_dereferences_null:
  "op_pre_inc l (list_end l) = Inl NullDeref \<and>
   op_post_inc l (list_end l) = Inl NullDeref \<and>
   op_add_assign l (list_end l) p_inc = list_end l"
proof -
  have "op_add_loop n l (FixedLengthListIter None) = FixedLengthListIter None" for n
    by (cases n) simp_all
  then show ?thesis
    by (simp add: op_pre_inc_def op_post_inc_def op_add_assign_def list_end_def)
qed

subsection \<open>The constructors\<close>

lemma map_nth_take: "k \<le> length xs \<Longrightarrow> map ((!) xs) [0..<k] = take k xs"
  by (rule nth_equalityI) auto

lemma unat_min: "unat (min a b) = min (unat a) (unat b)"
  by (simp add: min_def word_le_nat_alt)

lemma upt_last_two: "0 < i \<Longrightarrow> k \<le> i - 1 \<Longrightarrow> [k..<Suc i] = [k..<i - 1] @ [i - 1, i]"
proof -
  assume a: "0 < i" "k \<le> i - 1"
  then have "[k..<Suc i] = [k..<i] @ [i]" by simp
  moreover from a have "[k..<i] = [k..<i - 1] @ [i - 1]"
    by (metis Suc_pred' upt_Suc_append)
  ultimately show ?thesis by simp
qed

lemma init_used_loop_spec:
  assumes "n - i = d" and "i \<le> n" and "n \<le> length (m_items l)"
    and "path (m_items l) (m_usedHead l) [0..<i] None"
    and "prev = (if i = 0 then None else Some (i - 1))"
    and "m_usedTail l = prev"
    and "\<forall>j<i. item_of l j = src ! j"
  shows "\<exists>its' h. init_used_loop i n src prev l
                   = l\<lparr>m_items := its', m_usedHead := h,
                       m_usedTail := (if n = 0 then None else Some (n - 1))\<rparr> \<and>
           length its' = length (m_items l) \<and> path its' h [0..<n] None \<and>
           (\<forall>j<n. m_item (its' ! j) = src ! j)"
  using assms
proof (induction d arbitrary: i prev l)
  case 0
  then have "i = n" by simp
  with 0 have "init_used_loop i n src prev l
                 = l\<lparr>m_items := m_items l, m_usedHead := m_usedHead l,
                     m_usedTail := (if n = 0 then None else Some (n - 1))\<rparr>"
    by (subst init_used_loop.simps) simp
  with 0 \<open>i = n\<close> show ?case
    by (intro exI[of _ "m_items l"] exI[of _ "m_usedHead l"]) (simp add: item_of_def)
next
  case (Suc d)
  then have lt: "i < n" and il: "i < length (m_items l)" by auto
  let ?l1 = "set_item i (src ! i) (set_forward i None l)"
  let ?l2 = "(case prev of
                Some pr \<Rightarrow> set_forward pr (Some i) ?l1
              | None \<Rightarrow> ?l1\<lparr>m_usedHead := Some i\<rparr>)\<lparr>m_usedTail := Some i\<rparr>"
  have unroll: "init_used_loop i n src prev l = init_used_loop (i + 1) n src (Some i) ?l2"
    using lt by (subst init_used_loop.simps) (simp add: Let_def)
  have len2: "length (m_items ?l2) = length (m_items l)"
    by (simp add: heap_defs split: option.split)
  have p2: "path (m_items ?l2) (m_usedHead ?l2) [0..<i + 1] None"
  proof (cases "i = 0")
    case True
    with Suc.prems il show ?thesis by (simp add: heap_defs)
  next
    case False
    then have upt: "[0..<i] = [0..<i - 1] @ [i - 1]"
      by (metis Suc_pred' not_gr_zero upt_Suc_append zero_le)
    from False have upt2: "[0..<i + 1] = [0..<i - 1] @ [i - 1, i]"
      using upt_last_two[of i 0] by simp
    from Suc.prems(4) have "path (m_items l) (m_usedHead l) [0..<i - 1] (Some (i - 1))"
      unfolding upt by (simp add: path_snoc)
    with False Suc.prems(5) il show ?thesis
      unfolding upt2 by (simp add: heap_defs path_append path_upd)
  qed
  have it2: "\<forall>j<i + 1. item_of ?l2 j = src ! j"
    using Suc.prems(5,7) il
    by (auto simp: heap_defs nth_list_update less_Suc_eq split: option.split)
  have "n - (i + 1) = d" "i + 1 \<le> n" "n \<le> length (m_items ?l2)"
    "Some i = (if i + 1 = 0 then None else Some (i + 1 - 1))" "m_usedTail ?l2 = Some i"
    using Suc.prems lt len2 by simp_all
  from Suc.IH[OF this(1-3) p2 this(4,5) it2] obtain its' h where
    r: "init_used_loop (i + 1) n src (Some i) ?l2
          = ?l2\<lparr>m_items := its', m_usedHead := h,
                m_usedTail := (if n = 0 then None else Some (n - 1))\<rparr>"
      "length its' = length (m_items ?l2)" "path its' h [0..<n] None"
      "\<forall>j<n. m_item (its' ! j) = src ! j"
    by blast
  have "?l2\<lparr>m_items := its', m_usedHead := h,
             m_usedTail := (if n = 0 then None else Some (n - 1))\<rparr>
          = l\<lparr>m_items := its', m_usedHead := h,
               m_usedTail := (if n = 0 then None else Some (n - 1))\<rparr>"
    by (simp add: heap_defs split: option.split)
  with r unroll len2 show ?case by (intro exI[of _ its'] exI[of _ h]) simp
qed


lemma init_free_loop_spec:
  assumes "n - i = d" and "k \<le> i" and "i \<le> n" and "n \<le> length (m_items l)"
    and "path (m_items l) (m_freeHead l) [k..<i] None"
    and "prev = (if i = k then None else Some (i - 1))"
  shows "\<exists>its' h. init_free_loop i n prev l = l\<lparr>m_items := its', m_freeHead := h\<rparr> \<and>
           length its' = length (m_items l) \<and> path its' h [k..<n] None \<and>
           (\<forall>j<k. its' ! j = m_items l ! j) \<and>
           (\<forall>j. m_item (its' ! j) = m_item (m_items l ! j))"
  using assms
proof (induction d arbitrary: i prev l)
  case 0
  then have "i = n" by simp
  with 0 have "init_free_loop i n prev l
                 = l\<lparr>m_items := m_items l, m_freeHead := m_freeHead l\<rparr>"
    by (subst init_free_loop.simps) simp
  with 0 \<open>i = n\<close> show ?case
    by (intro exI[of _ "m_items l"] exI[of _ "m_freeHead l"]) simp
next
  case (Suc d)
  then have lt: "i < n" and il: "i < length (m_items l)" by auto
  let ?l1 = "set_forward i None l"
  let ?l2 = "(case prev of
                Some pr \<Rightarrow> set_forward pr (Some i) ?l1
              | None \<Rightarrow> ?l1\<lparr>m_freeHead := Some i\<rparr>)"
  have unroll: "init_free_loop i n prev l = init_free_loop (i + 1) n (Some i) ?l2"
    using lt by (subst init_free_loop.simps) (simp add: Let_def)
  have len2: "length (m_items ?l2) = length (m_items l)"
    by (simp add: heap_defs split: option.split)
  have p2: "path (m_items ?l2) (m_freeHead ?l2) [k..<i + 1] None"
  proof (cases "i = k")
    case True
    with Suc.prems il show ?thesis by (simp add: heap_defs upt_conv_Cons)
  next
    case False
    with Suc.prems(2) have ki: "k < i" by simp
    then have upt: "[k..<i] = [k..<i - 1] @ [i - 1]"
      by (metis Suc_pred' less_Suc_eq_le less_nat_zero_code not_gr_zero upt_Suc_append)
    from ki have upt2: "[k..<i + 1] = [k..<i - 1] @ [i - 1, i]"
      using upt_last_two[of i k] by simp
    from Suc.prems(5) have "path (m_items l) (m_freeHead l) [k..<i - 1] (Some (i - 1))"
      unfolding upt by (simp add: path_snoc)
    with False ki Suc.prems(6) il show ?thesis
      unfolding upt2 by (simp add: heap_defs path_append path_upd)
  qed
  have fr2: "\<forall>j<k. m_items ?l2 ! j = m_items l ! j"
    using Suc.prems(2,6) by (auto simp: heap_defs split: option.split)
  have it2: "\<forall>j. m_item (m_items ?l2 ! j) = m_item (m_items l ! j)"
    using Suc.prems(6) il
    by (auto simp: heap_defs nth_list_update split: option.split)
  have "n - (i + 1) = d" "k \<le> i + 1" "i + 1 \<le> n" "n \<le> length (m_items ?l2)"
    "Some i = (if i + 1 = k then None else Some (i + 1 - 1))"
    using Suc.prems lt len2 by simp_all
  from Suc.IH[OF this(1-4) p2 this(5)] obtain its' h where
    r: "init_free_loop (i + 1) n (Some i) ?l2 = ?l2\<lparr>m_items := its', m_freeHead := h\<rparr>"
      "length its' = length (m_items ?l2)" "path its' h [k..<n] None"
      "\<forall>j<k. its' ! j = m_items ?l2 ! j"
      "\<forall>j. m_item (its' ! j) = m_item (m_items ?l2 ! j)"
    by blast
  have "?l2\<lparr>m_items := its', m_freeHead := h\<rparr> = l\<lparr>m_items := its', m_freeHead := h\<rparr>"
    by (simp add: heap_defs split: option.split)
  with r unroll len2 fr2 it2 show ?case by (intro exI[of _ its'] exI[of _ h]) simp
qed

lemma init_wf:
  fixes N :: "'b::len word"
  assumes len: "length (m_items this) = unat N"
    and src: "unat (min N p_count) \<le> length p_items"
  shows "wf_list N (FixedLengthList_init N p_items p_count this)
           [0..<unat (min N p_count)] [unat (min N p_count)..<unat N] \<and>
         map (item_of (FixedLengthList_init N p_items p_count this)) [0..<unat (min N p_count)]
           = take (unat (min N p_count)) p_items"
proof -
  let ?k = "unat (min N p_count)"
  let ?n = "unat N"
  have kn: "?k \<le> ?n" by (simp add: unat_min)
  let ?l0 = "this\<lparr>m_usedHead := None, m_usedTail := None\<rparr>"
  have "\<exists>its' h. init_used_loop 0 ?k p_items None ?l0
                   = ?l0\<lparr>m_items := its', m_usedHead := h,
                         m_usedTail := (if ?k = 0 then None else Some (?k - 1))\<rparr> \<and>
           length its' = length (m_items ?l0) \<and> path its' h [0..<?k] None \<and>
           (\<forall>j<?k. m_item (its' ! j) = p_items ! j)"
    using kn len by (intro init_used_loop_spec[where d = ?k]) simp_all
  then obtain its1 h1 where
    u: "init_used_loop 0 ?k p_items None ?l0
          = ?l0\<lparr>m_items := its1, m_usedHead := h1,
                m_usedTail := (if ?k = 0 then None else Some (?k - 1))\<rparr>"
      "length its1 = ?n" "path its1 h1 [0..<?k] None"
      "\<forall>j<?k. m_item (its1 ! j) = p_items ! j"
    using len by auto
  let ?l1 = "this\<lparr>m_items := its1, m_usedHead := h1,
                  m_usedTail := (if ?k = 0 then None else Some (?k - 1)),
                  m_usedCount := min N p_count, m_freeHead := None\<rparr>"
  have "\<exists>its' h. init_free_loop ?k ?n None ?l1 = ?l1\<lparr>m_items := its', m_freeHead := h\<rparr> \<and>
           length its' = length (m_items ?l1) \<and> path its' h [?k..<?n] None \<and>
           (\<forall>j<?k. its' ! j = m_items ?l1 ! j) \<and>
           (\<forall>j. m_item (its' ! j) = m_item (m_items ?l1 ! j))"
    using kn u(2) by (intro init_free_loop_spec[where d = "?n - ?k"]) simp_all
  then obtain its2 h2 where
    f: "init_free_loop ?k ?n None ?l1 = ?l1\<lparr>m_items := its2, m_freeHead := h2\<rparr>"
      "length its2 = ?n" "path its2 h2 [?k..<?n] None"
      "\<forall>j<?k. its2 ! j = its1 ! j" "\<forall>j. m_item (its2 ! j) = m_item (its1 ! j)"
    using u(2) by auto
  have "FixedLengthList_init N p_items p_count this
          = init_free_loop ?k ?n None
              ((init_used_loop 0 ?k p_items None ?l0)
                 \<lparr>m_usedCount := min N p_count, m_freeHead := None\<rparr>)"
    unfolding FixedLengthList_init_def Let_def by simp
  also have "(init_used_loop 0 ?k p_items None ?l0)
               \<lparr>m_usedCount := min N p_count, m_freeHead := None\<rparr> = ?l1"
    unfolding u(1) by simp
  finally have res: "FixedLengthList_init N p_items p_count this
                       = ?l1\<lparr>m_items := its2, m_freeHead := h2\<rparr>"
    unfolding f(1) .
  have "path its2 h1 [0..<?k] None = path its1 h1 [0..<?k] None"
    using f(2,4) u(2) by (intro path_cong) simp_all
  with u(3) have pu: "path its2 h1 [0..<?k] None" by simp
  have last: "?k \<noteq> 0 \<Longrightarrow> last [0..<?k] = ?k - 1"
    by (simp add: last_upt)
  have w: "wf_list N (FixedLengthList_init N p_items p_count this) [0..<?k] [?k..<?n]"
    using pu f(2,3) kn last unfolding res wf_list_def by auto
  have "map (\<lambda>j. m_item (its2 ! j)) [0..<?k] = map ((!) p_items) [0..<?k]"
    using f(5) u(4) by auto
  with src have "map (item_of (FixedLengthList_init N p_items p_count this)) [0..<?k]
                   = take ?k p_items"
    unfolding res by (simp add: item_of_def[abs_def] map_nth_take)
  with w show ?thesis by simp
qed


text \<open>
  Claim C7. For a capacity \<open>queueMax > 0\<close> and an array of \<open>p_count\<close> values, the
  initialising constructor builds a list that satisfies the invariant, with \<open>used()\<close>
  equal to the minimum of \<open>p_count\<close> and \<open>queueMax\<close>, whose used list, from head to
  tail and as the iteration visits it, holds the first \<open>queueMax\<close> values of the
  array in the order of the array. The values beyond \<open>queueMax\<close> are dropped; the
  constructor has no way to signal an error.
\<close>

theorem init_constructor_keeps_order:
  fixes N :: "'b::len word"
  assumes "0 < N" and "length (m_items this) = unat N" and "length p_items = unat p_count"
  shows "list_inv N (FixedLengthList_init N p_items p_count this) \<and>
         used (FixedLengthList_init N p_items p_count this) = min N p_count \<and>
         unat (used (FixedLengthList_init N p_items p_count this))
           = min (length p_items) (unat N) \<and>
         contents (FixedLengthList_init N p_items p_count this) = take (unat N) p_items \<and>
         iterate (FixedLengthList_init N p_items p_count this)
           (list_begin (FixedLengthList_init N p_items p_count this)) []
           = Some (Inr (take (unat N) p_items))"
proof -
  let ?l = "FixedLengthList_init N p_items p_count this"
  let ?k = "unat (min N p_count)"
  have k: "?k = min (length p_items) (unat N)"
    using assms(3) by (simp add: unat_min min.commute)
  then have "?k \<le> length p_items" by simp
  from init_wf[OF assms(2) this] have
    w: "wf_list N ?l [0..<?k] [?k..<unat N]" and
    m: "map (item_of ?l) [0..<?k] = take ?k p_items"
    by simp_all
  have tk: "take ?k p_items = take (unat N) p_items"
    unfolding k by (auto simp: min_def)
  have a: "list_inv N ?l" by (rule wf_list_inv[OF w])
  have b: "used ?l = min N p_count"
    using w by (simp add: wf_list_def used_def)
  have c: "unat (used ?l) = min (length p_items) (unat N)"
    using wf_used[OF w] k by simp
  have d: "contents ?l = take (unat N) p_items"
    using m tk by (simp add: wf_contents[OF w])
  from w have "path (m_items ?l) (m_usedHead ?l) [0..<?k] None"
    by (simp add: wf_list_def)
  from iterate_path[OF this, of "[]"] have
    e: "iterate ?l (list_begin ?l) [] = Some (Inr (take (unat N) p_items))"
    using m tk by (simp add: list_begin_def)
  from a b c d e show ?thesis by simp
qed

theorem init_constructor_keeps_order_witness:
  "(0 :: 32 word) < 3 \<and> length (m_items (zeroed 3)) = unat (3 :: 32 word) \<and>
   length [12, 23, 34, 45, 56 :: int] = unat (5 :: 32 word) \<and>
   list_inv 3 (FixedLengthList_init 3 [12, 23, 34, 45, 56] 5 (zeroed 3)) \<and>
   used (FixedLengthList_init 3 [12, 23, 34, 45, 56] 5 (zeroed 3)) = 3 \<and>
   contents (FixedLengthList_init 3 [12, 23, 34, 45, 56] 5 (zeroed 3)) = [12, 23, 34] \<and>
   iterate (FixedLengthList_init 3 [12, 23, 34, 45, 56] 5 (zeroed 3))
     (list_begin (FixedLengthList_init 3 [12, 23, 34, 45, 56] 5 (zeroed 3))) []
     = Some (Inr [12, 23, 34])"
proof -
  have h1: "(0 :: 32 word) < 3" by simp
  have h2: "length (m_items (zeroed 3)) = unat (3 :: 32 word)"
    by (simp add: zeroed_def)
  have h3: "length [12, 23, 34, 45, 56 :: int] = unat (5 :: 32 word)" by simp
  from init_constructor_keeps_order[OF h1 h2 h3] h1 h2 h3
  show ?thesis by simp
qed

subsection \<open>Sequences of calls keep the invariant\<close>

text \<open>
  Both constructors establish \<open>list_inv\<close> (\<open>clear_wf\<close>, \<open>init_wf\<close>), and every call
  returns and keeps it: the lists that satisfy \<open>list_inv\<close> include every list that a
  program can reach.
\<close>

lemma apply_call_inv:
  fixes N :: "'b::len word"
  assumes N: "0 < N" and inv: "list_inv N l"
  shows "\<exists>l' out'. apply_call N c (l, out) = Some (l', out') \<and> list_inv N l'"
proof -
  from inv obtain us fs where w: "wf_list N l us fs"
    by (auto simp: list_inv_iff)
  show ?thesis
  proof (cases c)
    case (Push v)
    show ?thesis
    proof (cases fs)
      case Nil
      with w push_full[of N l us v] Push inv show ?thesis by simp
    next
      case (Cons f fs')
      with w push_ok[of N l us f fs' v] Push show ?thesis
        by (auto intro: wf_list_inv)
    qed
  next
    case (Queue v)
    show ?thesis
    proof (cases fs)
      case Nil
      with w queue_full[of N l us v] Queue inv show ?thesis by simp
    next
      case (Cons f fs')
      with w queue_ok[of N l us f fs' v] Queue show ?thesis
        by (auto intro: wf_list_inv)
    qed
  next
    case Pop
    show ?thesis
    proof (cases us)
      case Nil
      with w pop_empty[of N l fs out] Pop inv show ?thesis by simp
    next
      case (Cons u us')
      with w pop_ok[of N l u us' fs out] Pop show ?thesis
        by (auto intro: wf_list_inv)
    qed
  next
    case Dequeue
    show ?thesis
    proof (cases us rule: rev_cases)
      case Nil
      with w dequeue_empty[of N l fs out] Dequeue inv show ?thesis by simp
    next
      case (snoc us' t)
      with w dequeue_ok[of N l us' t fs out] Dequeue show ?thesis
        by (auto intro: wf_list_inv)
    qed
  next
    case (Remove v)
    show ?thesis
    proof (cases "\<exists>x\<in>set us. item_of l x = v")
      case False
      then have "\<forall>x\<in>set us. item_of l x \<noteq> v" by simp
      from remove_none[OF w this] Remove inv show ?thesis by simp
    next
      case True
      from split_list_first_prop[OF this] obtain xs u ys where
        us: "us = xs @ u # ys" and u: "item_of l u = v"
        and xs: "\<forall>x\<in>set xs. item_of l x \<noteq> v"
        by blast
      from w us have "wf_list N l (xs @ u # ys) fs" by simp
      from remove_ok[OF this xs u] Remove show ?thesis
        by (auto intro: wf_list_inv)
    qed
  next
    case Clear
    from w have "length (m_items l) = unat N" by (simp add: wf_list_def)
    from clear_wf[OF N this] Clear show ?thesis
      by (auto intro: wf_list_inv)
  qed
qed

lemma run_calls_inv:
  fixes N :: "'b::len word"
  assumes N: "0 < N"
  shows "list_inv N l \<Longrightarrow>
           \<exists>l' out'. run_calls N cs (l, out) = Some (l', out') \<and> list_inv N l'"
proof (induction cs arbitrary: l out)
  case Nil
  then show ?case by simp
next
  case (Cons c cs)
  from apply_call_inv[OF N Cons.prems, of c out] obtain l1 out1 where
    s: "apply_call N c (l, out) = Some (l1, out1)" "list_inv N l1"
    by blast
  from Cons.IH[OF s(2), of out1] s(1) show ?case by simp
qed

lemma inv_counts:
  fixes N :: "'b::len word"
  assumes "list_inv N l"
  shows "unat (used l) + unat (available N l) = unat N \<and> used l \<le> N"
proof -
  from assms obtain us fs where w: "wf_list N l us fs"
    by (auto simp: list_inv_iff)
  from wf_used[OF w] w have le: "unat (used l) \<le> unat N" by (simp add: wf_list_def)
  then have le': "used l \<le> N" by (simp add: word_le_nat_alt)
  then have "unat (N - used l) = unat N - unat (used l)" by (rule unat_sub)
  with le le' show ?thesis by (simp add: available_def used_def)
qed

text \<open>
  Claim C3. For a capacity \<open>queueMax > 0\<close>, start from a list that one of the two
  constructors has just built and run any sequence of \<open>push\<close>, \<open>queue\<close>, \<open>pop\<close>,
  \<open>dequeue\<close>, \<open>remove\<close> and \<open>clear\<close>. After every call of the sequence (every
  prefix \<open>take n cs\<close>) all calls have returned, \<open>used() + available()\<close> is
  \<open>queueMax\<close> without wrap-around, and \<open>used()\<close> lies between \<open>0\<close> and \<open>queueMax\<close>.
\<close>

theorem used_plus_available:
  fixes N :: "'b::len word"
  assumes "0 < N" and "length (m_items this) = unat N"
    and "l0 = FixedLengthList_void N this \<or>
         (l0 = FixedLengthList_init N p_items p_count this \<and> length p_items = unat p_count)"
  shows "\<exists>l out'. run_calls N (take n cs) (l0, out) = Some (l, out') \<and>
           unat (used l) + unat (available N l) = unat N \<and> 0 \<le> used l \<and> used l \<le> N"
proof -
  have "list_inv N l0"
  proof -
    have "list_inv N (FixedLengthList_void N this)"
      unfolding FixedLengthList_void_def
      by (rule wf_list_inv[OF clear_wf[OF assms(1,2)]])
    moreover have "list_inv N (FixedLengthList_init N p_items p_count this)"
      if "length p_items = unat p_count"
    proof -
      from that have "unat (min N p_count) \<le> length p_items" by (simp add: unat_min)
      from init_wf[OF assms(2) this] show ?thesis by (auto intro: wf_list_inv)
    qed
    ultimately show ?thesis using assms(3) by auto
  qed
  from run_calls_inv[OF assms(1) this, of "take n cs" out] obtain l out' where
    r: "run_calls N (take n cs) (l0, out) = Some (l, out')" "list_inv N l"
    by blast
  from inv_counts[OF r(2)] r(1) show ?thesis by simp
qed

theorem used_plus_available_witness:
  "(0 :: 32 word) < 3 \<and> length (m_items (zeroed 3)) = unat (3 :: 32 word) \<and>
   (\<exists>l out'. run_calls 3
       (take 8 [Push 1, Queue 2, Push 3, Push 4, Pop, Dequeue, Remove 3, Remove 9, Clear, Pop])
       (FixedLengthList_void 3 (zeroed 3), 0) = Some (l, out') \<and>
      unat (used l) + unat (available 3 l) = unat (3 :: 32 word) \<and> 0 \<le> used l \<and> used l \<le> 3)"
proof -
  have h1: "(0 :: 32 word) < 3" by simp
  have h2: "length (m_items (zeroed 3)) = unat (3 :: 32 word)"
    by (simp add: zeroed_def)
  from used_plus_available[OF h1 h2, of "FixedLengthList_void 3 (zeroed 3)"] h1 h2
  show ?thesis by blast
qed

end
